theory Spec2Isabelle
  imports Main "HOL-Library.Sublist" "HOL-Library.Word"
begin

unbundle bit_operations_syntax

section \<open>Python strings, bytes and exceptions\<close>

text \<open>
  A Python \<open>str\<close> is a sequence of Unicode code points, and \<open>len\<close> counts code points.
  A code point is a natural number below \<open>0x110000\<close>; the surrogates
  \<open>0xD800 .. 0xDFFF\<close> are legal elements of a \<open>str\<close>. String literals of the source
  are written through \<open>of_ascii\<close>.
\<close>

type_synonym codepoint = nat
type_synonym str = "codepoint list"
type_synonym byte = nat

definition of_ascii :: "string \<Rightarrow> str" where
  "of_ascii cs = map of_char cs"

text \<open>
  The exceptions the module can raise: \<open>ValueError\<close> is the one the source raises itself
  for an impossible length budget, \<open>UnicodeEncodeError\<close> comes from \<open>str.encode("utf8")\<close>,
  \<open>IndexError\<close> from \<open>names[0]\<close> on an empty sequence.
\<close>

datatype py_error = ValueError | UnicodeEncodeError | IndexError

subsection \<open>The string methods the module calls\<close>

text \<open>\<open>s.lstrip(chars)\<close> and \<open>s.rstrip(chars)\<close>.\<close>

definition lstrip :: "str \<Rightarrow> str \<Rightarrow> str" where
  "lstrip chars s = dropWhile (\<lambda>c. c \<in> set chars) s"

definition rstrip :: "str \<Rightarrow> str \<Rightarrow> str" where
  "rstrip chars s = rev (dropWhile (\<lambda>c. c \<in> set chars) (rev s))"

text \<open>\<open>s[:n]\<close>: a negative bound counts from the end.\<close>

definition slice_to :: "int \<Rightarrow> str \<Rightarrow> str" where
  "slice_to n s = (if 0 \<le> n then take (nat n) s else take (length s - nat (- n)) s)"

text \<open>\<open>sep.join(parts)\<close>.\<close>

fun str_join :: "str \<Rightarrow> str list \<Rightarrow> str" where
  "str_join sep [] = []"
| "str_join sep [x] = x"
| "str_join sep (x # y # ys) = x @ sep @ str_join sep (y # ys)"

text \<open>\<open>sub in s\<close> is \<open>sublist sub s\<close>: a contiguous occurrence.\<close>

text \<open>
  \<open>s.startswith(t)\<close> and \<open>s.endswith(t)\<close> for a tuple \<open>t\<close> of strings: some element of
  the tuple is a prefix (suffix) of \<open>s\<close>.
\<close>

definition startswith :: "str \<Rightarrow> str list \<Rightarrow> bool" where
  "startswith s t = list_ex (\<lambda>p. prefix p s) t"

definition endswith :: "str \<Rightarrow> str list \<Rightarrow> bool" where
  "endswith s t = list_ex (\<lambda>p. suffix p s) t"

text \<open>\<open>tuple(s)\<close> of a string: its characters, each a string of length one.\<close>

definition tuple_of :: "str \<Rightarrow> str list" where
  "tuple_of s = map (\<lambda>c. [c]) s"

text \<open>
  \<open>s.lower()\<close>. An ASCII code point is lowered by the ASCII rule and nothing else about
  it changes. What a code point from \<open>0x80\<close> on becomes is decided by the Unicode tables
  of the interpreter (one code point can become several, and capital sigma depends on its
  context), which are no part of the repository: the lowering of the non-ASCII code point
  at index \<open>i\<close> of \<open>s\<close> is the parameter \<open>U s i\<close>.
\<close>

type_synonym lowering = "str \<Rightarrow> nat \<Rightarrow> str"

definition ascii_lower :: "codepoint \<Rightarrow> codepoint" where
  "ascii_lower c = (if 65 \<le> c \<and> c \<le> 90 then c + 32 else c)"

definition str_lower :: "lowering \<Rightarrow> str \<Rightarrow> str" where
  "str_lower U s =
     concat (map (\<lambda>(i, c). if c < 128 then [ascii_lower c] else U s i) (enumerate 0 s))"

text \<open>
  A lowering that leaves every non-ASCII code point as it is. It closes the examples below,
  whose inputs are ASCII or never reach \<open>lower()\<close>.
\<close>

definition ascii_lowering :: lowering where
  "ascii_lowering s i = [s ! i]"

text \<open>
  \<open>s.encode("utf8")\<close>: one to four bytes per code point; a surrogate cannot be encoded
  and raises.
\<close>

definition utf8_char :: "codepoint \<Rightarrow> py_error + byte list" where
  "utf8_char c =
     (if c < 0x80 then Inr [c]
      else if c < 0x800 then Inr [0xC0 + c div 64, 0x80 + c mod 64]
      else if 0xD800 \<le> c \<and> c \<le> 0xDFFF then Inl UnicodeEncodeError
      else if c < 0x10000 then
        Inr [0xE0 + c div 4096, 0x80 + (c div 64) mod 64, 0x80 + c mod 64]
      else if c < 0x110000 then
        Inr [0xF0 + c div 262144, 0x80 + (c div 4096) mod 64, 0x80 + (c div 64) mod 64,
             0x80 + c mod 64]
      else Inl UnicodeEncodeError)"

fun utf8_encode :: "str \<Rightarrow> py_error + byte list" where
  "utf8_encode [] = Inr []"
| "utf8_encode (c # cs) =
     (case utf8_char c of
        Inl e \<Rightarrow> Inl e
      | Inr b \<Rightarrow> (case utf8_encode cs of Inl e \<Rightarrow> Inl e | Inr bs \<Rightarrow> Inr (b @ bs)))"

text \<open>The strings \<open>encode\<close> accepts.\<close>

definition encodable_char :: "codepoint \<Rightarrow> bool" where
  "encodable_char c = (c < 0xD800 \<or> (0xDFFF < c \<and> c < 0x110000))"

definition utf8_encodable :: "str \<Rightarrow> bool" where
  "utf8_encodable s = list_all encodable_char s"

subsection \<open>Occurrences of a substring\<close>

text \<open>The indices at which \<open>sub\<close> occurs in \<open>s\<close>, overlapping occurrences included.\<close>

definition occurrences :: "str \<Rightarrow> str \<Rightarrow> nat list" where
  "occurrences sub s = filter (\<lambda>i. prefix sub (drop i s)) [0..<length s]"

section \<open>hashlib.sha256\<close>

text \<open>
  SHA-256 (FIPS 180-4) on a byte string, and its lower-case hexadecimal digest, as
  \<open>hashlib.sha256(data).hexdigest()\<close> returns it.
\<close>

type_synonym w32 = "32 word"

definition rotr :: "nat \<Rightarrow> w32 \<Rightarrow> w32" where
  "rotr n w = (drop_bit n w) OR (push_bit (32 - n) w)"

definition ch :: "w32 \<Rightarrow> w32 \<Rightarrow> w32 \<Rightarrow> w32" where
  "ch x y z = (x AND y) XOR (NOT x AND z)"

definition maj :: "w32 \<Rightarrow> w32 \<Rightarrow> w32 \<Rightarrow> w32" where
  "maj x y z = (x AND y) XOR (x AND z) XOR (y AND z)"

definition bsig0 :: "w32 \<Rightarrow> w32" where
  "bsig0 x = rotr 2 x XOR rotr 13 x XOR rotr 22 x"

definition bsig1 :: "w32 \<Rightarrow> w32" where
  "bsig1 x = rotr 6 x XOR rotr 11 x XOR rotr 25 x"

definition ssig0 :: "w32 \<Rightarrow> w32" where
  "ssig0 x = rotr 7 x XOR rotr 18 x XOR drop_bit 3 x"

definition ssig1 :: "w32 \<Rightarrow> w32" where
  "ssig1 x = rotr 17 x XOR rotr 19 x XOR drop_bit 10 x"

text \<open>
  The 64 round constants (the first 32 bits of the fractional parts of the cube roots of
  the first 64 primes), in decimal.
\<close>

definition sha_k :: "w32 list" where
  "sha_k = [
     1116352408, 1899447441, 3049323471, 3921009573, 961987163, 1508970993,
     2453635748, 2870763221, 3624381080, 310598401, 607225278, 1426881987,
     1925078388, 2162078206, 2614888103, 3248222580, 3835390401, 4022224774,
     264347078, 604807628, 770255983, 1249150122, 1555081692, 1996064986,
     2554220882, 2821834349, 2952996808, 3210313671, 3336571891, 3584528711,
     113926993, 338241895, 666307205, 773529912, 1294757372, 1396182291,
     1695183700, 1986661051, 2177026350, 2456956037, 2730485921, 2820302411,
     3259730800, 3345764771, 3516065817, 3600352804, 4094571909, 275423344,
     430227734, 506948616, 659060556, 883997877, 958139571, 1322822218,
     1537002063, 1747873779, 1955562222, 2024104815, 2227730452, 2361852424,
     2428436474, 2756734187, 3204031479, 3329325298]"

type_synonym sha_state = "w32 \<times> w32 \<times> w32 \<times> w32 \<times> w32 \<times> w32 \<times> w32 \<times> w32"

definition sha_init :: sha_state where
  "sha_init = (1779033703, 3144134277, 1013904242, 2773480762,
               1359893119, 2600822924, 528734635, 1541459225)"

definition sha_pad :: "byte list \<Rightarrow> byte list" where
  "sha_pad bs = (let n = length bs; bits = 8 * n in
     bs @ [0x80] @ replicate ((64 - (n + 9) mod 64) mod 64) 0
        @ map (\<lambda>i. (bits div 256 ^ (7 - i)) mod 256) [0..<8])"

fun chunks :: "nat \<Rightarrow> byte list \<Rightarrow> byte list list" where
  "chunks 0 xs = []"
| "chunks (Suc f) xs = (if xs = [] then [] else take 64 xs # chunks f (drop 64 xs))"

fun be_words :: "byte list \<Rightarrow> w32 list" where
  "be_words (a # b # c # d # r) =
     word_of_nat (((a * 256 + b) * 256 + c) * 256 + d) # be_words r"
| "be_words _ = []"

fun schedule :: "nat \<Rightarrow> w32 list \<Rightarrow> w32 list" where
  "schedule 0 w = w"
| "schedule (Suc k) w = (let n = length w in
     schedule k
       (w @ [ssig1 (w ! (n - 2)) + w ! (n - 7) + ssig0 (w ! (n - 15)) + w ! (n - 16)]))"

definition sha_round :: "sha_state \<Rightarrow> w32 \<times> w32 \<Rightarrow> sha_state" where
  "sha_round s kw = (case s of (a, b, c, d, e, f, g, h) \<Rightarrow>
     let t1 = h + bsig1 e + ch e f g + fst kw + snd kw;
         t2 = bsig0 a + maj a b c
     in (t1 + t2, a, b, c, d + t1, e, f, g))"

definition sha_add :: "sha_state \<Rightarrow> sha_state \<Rightarrow> sha_state" where
  "sha_add s t = (case s of (a, b, c, d, e, f, g, h) \<Rightarrow>
     case t of (a', b', c', d', e', f', g', h') \<Rightarrow>
       (a + a', b + b', c + c', d + d', e + e', f + f', g + g', h + h'))"

definition sha_block :: "sha_state \<Rightarrow> byte list \<Rightarrow> sha_state" where
  "sha_block s blk = sha_add s (foldl sha_round s (zip sha_k (schedule 48 (be_words blk))))"

definition hexdigit :: "nat \<Rightarrow> codepoint" where
  "hexdigit d = (if d < 10 then 48 + d else 87 + d)"

definition hex_word :: "w32 \<Rightarrow> str" where
  "hex_word w = map (\<lambda>i. hexdigit ((unat w div 16 ^ (7 - i)) mod 16)) [0..<8]"

definition sha256_hexdigest :: "byte list \<Rightarrow> str" where
  "sha256_hexdigest bs =
     (case foldl sha_block sha_init (chunks (Suc (length bs div 64 + 1)) (sha_pad bs)) of
        (a, b, c, d, e, f, g, h) \<Rightarrow> concat (map hex_word [a, b, c, d, e, f, g, h]))"

section \<open>The module \<open>slugs\<close>\<close>

subsection \<open>Module constants\<close>

definition ascii_lowercase :: str where
  "ascii_lowercase = of_ascii ''abcdefghijklmnopqrstuvwxyz''"

definition ascii_uppercase :: str where
  "ascii_uppercase = of_ascii ''ABCDEFGHIJKLMNOPQRSTUVWXYZ''"

definition ascii_letters :: str where
  "ascii_letters = ascii_lowercase @ ascii_uppercase"

definition digits :: str where
  "digits = of_ascii ''0123456789''"

definition alphanum :: "str list" where
  "alphanum = tuple_of (ascii_letters @ digits)"

definition alphanum_lower :: "str list" where
  "alphanum_lower = tuple_of (ascii_lowercase @ digits)"

definition lower_plus_hyphen :: "str list" where
  "lower_plus_hyphen = alphanum_lower @ [of_ascii ''-'']"

definition hash_length :: nat where
  "hash_length = 8"

subsection \<open>The compiled patterns\<close>

text \<open>
  Both validity patterns have the shape \<open>^[...]+$\<close> and are used through
  \<open>pattern.match(s)\<close>: a non-empty run of characters of the class from the start of
  \<open>s\<close>, after which \<open>$\<close> holds, that is, \<open>s\<close> ends there or only a final newline is left.
\<close>

definition class_plus_match :: "(codepoint \<Rightarrow> bool) \<Rightarrow> str \<Rightarrow> bool" where
  "class_plus_match cls s =
     ((s \<noteq> [] \<and> list_all cls s) \<or>
      (butlast s \<noteq> [] \<and> last s = 10 \<and> list_all cls (butlast s)))"

definition in_range :: "codepoint \<Rightarrow> codepoint \<Rightarrow> codepoint \<Rightarrow> bool" where
  "in_range lo hi c = (lo \<le> c \<and> c \<le> hi)"

text \<open>
  \<open>_object_pattern\<close> is \<open>^[a-z0-9\.-]+$\<close>: the ranges \<open>a-z\<close> and \<open>0-9\<close>, the dot, and
  the hyphen, which stands last in the class and so is a literal.
\<close>

definition object_class :: "codepoint \<Rightarrow> bool" where
  "object_class c = (in_range 97 122 c \<or> in_range 48 57 c \<or> c = 46 \<or> c = 45)"

definition object_pattern :: "str \<Rightarrow> bool" where
  "object_pattern s = class_plus_match object_class s"

text \<open>
  \<open>_label_pattern\<close> is \<open>^[a-z0-9\.-_]+$\<close> with \<open>re.IGNORECASE\<close>. In this class the
  hyphen stands between the dot and the underscore, so \<open>\.-_\<close> is the range from \<open>.\<close>
  (46) to \<open>_\<close> (95); the class has the three ranges \<open>a-z\<close>, \<open>0-9\<close> and \<open>.\<close> to \<open>_\<close>.
  Under \<open>IGNORECASE\<close> a character belongs to the class when one of its case variants
  does. The variants of an ASCII letter are its two cases; the only other characters with
  an ASCII case variant are U+0130 and U+0131 (variants of \<open>i\<close>), U+017F (of \<open>s\<close>) and
  U+212A (of \<open>k\<close>).
\<close>

definition case_variants :: "codepoint \<Rightarrow> codepoint list" where
  "case_variants c =
     (if in_range 65 90 c then [c, c + 32]
      else if in_range 97 122 c then [c, c - 32]
      else if c = 0x130 \<or> c = 0x131 then [c, 105, 73]
      else if c = 0x17F then [c, 115, 83]
      else if c = 0x212A then [c, 107, 75]
      else [c])"

definition label_class :: "codepoint \<Rightarrow> bool" where
  "label_class c =
     list_ex (\<lambda>v. in_range 97 122 v \<or> in_range 48 57 v \<or> in_range 46 95 v) (case_variants c)"

definition label_pattern :: "str \<Rightarrow> bool" where
  "label_pattern s = class_plus_match label_class s"

text \<open>
  \<open>_hyphen_plus_pattern.sub("-", s)\<close> for the pattern \<open>--+\<close>: from left to right, every
  maximal run of two or more hyphens becomes one hyphen.
\<close>

function hyphen_plus_sub :: "str \<Rightarrow> str" where
  "hyphen_plus_sub [] = []"
| "hyphen_plus_sub [c] = [c]"
| "hyphen_plus_sub (c # d # cs) =
     (if c = 45 \<and> d = 45 then 45 # hyphen_plus_sub (dropWhile (\<lambda>e. e = 45) cs)
      else c # hyphen_plus_sub (d # cs))"
  by pat_completeness auto
termination
  by (relation "measure length") (auto simp: less_Suc_eq_le intro: le_trans [OF length_dropWhile_le])

subsection \<open>Validity rules\<close>

text \<open>
  \<open>_is_valid_general\<close>: an argument left at \<open>None\<close>, a zero length and an empty tuple are
  falsy, and their check is skipped.
\<close>

definition is_valid_general ::
  "str \<Rightarrow> str list option \<Rightarrow> str list option \<Rightarrow> (str \<Rightarrow> bool) option \<Rightarrow>
   nat option \<Rightarrow> nat option \<Rightarrow> bool" where
  "is_valid_general s starts_with ends_with pattern min_length max_length =
     (if (case min_length of None \<Rightarrow> False | Some m \<Rightarrow> m \<noteq> 0 \<and> length s < m) then False
      else if (case max_length of None \<Rightarrow> False | Some m \<Rightarrow> m \<noteq> 0 \<and> length s > m) then False
      else if (case starts_with of None \<Rightarrow> False | Some t \<Rightarrow> t \<noteq> [] \<and> \<not> startswith s t)
        then False
      else if (case ends_with of None \<Rightarrow> False | Some t \<Rightarrow> t \<noteq> [] \<and> \<not> endswith s t)
        then False
      else if (case pattern of None \<Rightarrow> False | Some p \<Rightarrow> \<not> p s) then False
      else True)"

definition is_valid_object_name :: "str \<Rightarrow> bool" where
  "is_valid_object_name s =
     is_valid_general s (Some alphanum_lower) (Some alphanum_lower) (Some object_pattern)
       (Some 1) (Some 255)"

definition is_valid_label :: "str \<Rightarrow> bool" where
  "is_valid_label s =
     (if s = [] then True
      else is_valid_general s (Some alphanum) (Some alphanum) (Some label_pattern)
             None (Some 63))"

definition is_valid_default :: "str \<Rightarrow> bool" where
  "is_valid_default s =
     is_valid_general s (Some alphanum_lower) (Some alphanum_lower) (Some object_pattern)
       (Some 1) (Some 63)"

subsection \<open>Safe names and slugs\<close>

definition extract_safe_name :: "lowering \<Rightarrow> str \<Rightarrow> int \<Rightarrow> str" where
  "extract_safe_name U name max_length =
     (let safe_name = filter (\<lambda>c. [c] \<in> set lower_plus_hyphen) (str_lower U name);
          safe_name = hyphen_plus_sub (lstrip (of_ascii ''-'') safe_name);
          safe_name = rstrip (of_ascii ''-'') (slice_to max_length safe_name)
      in if safe_name = [] then of_ascii ''x'' else safe_name)"

definition strip_and_hash :: "lowering \<Rightarrow> str \<Rightarrow> int \<Rightarrow> py_error + str" where
  "strip_and_hash U name max_length =
     (let name_length = max_length - (int hash_length + 3) in
      if name_length < 1 then Inl ValueError
      else
        (case utf8_encode name of
           Inl e \<Rightarrow> Inl e
         | Inr data \<Rightarrow>
             let name_hash = take hash_length (sha256_hexdigest data);
                 safe_name = extract_safe_name U name name_length
             in Inr (safe_name @ of_ascii ''---'' @ name_hash)))"

text \<open>\<open>max_length or 32\<close>: \<open>None\<close> and \<open>0\<close> are falsy.\<close>

definition or_32 :: "int option \<Rightarrow> int" where
  "or_32 max_length = (case max_length of None \<Rightarrow> 32 | Some m \<Rightarrow> if m = 0 then 32 else m)"

definition safe_slug :: "lowering \<Rightarrow> str \<Rightarrow> (str \<Rightarrow> bool) \<Rightarrow> int option \<Rightarrow> py_error + str" where
  "safe_slug U name is_valid max_length =
     (if sublist (of_ascii ''--'') name then strip_and_hash U name (or_32 max_length)
      else if is_valid name \<and>
              (case max_length of None \<Rightarrow> True | Some m \<Rightarrow> int (length name) \<le> m)
        then Inr name
      else strip_and_hash U name (or_32 max_length))"

text \<open>
  The hasher of \<open>multi_slug\<close>: after the first name, every further name is fed in behind
  the byte \<open>0xFF\<close>. The state is the bytes fed so far.
\<close>

fun hasher_update_rest :: "byte list \<Rightarrow> str list \<Rightarrow> py_error + byte list" where
  "hasher_update_rest fed [] = Inr fed"
| "hasher_update_rest fed (name # names) =
     (case utf8_encode name of
        Inl e \<Rightarrow> Inl e
      | Inr b \<Rightarrow> hasher_update_rest (fed @ [0xFF] @ b) names)"

definition multi_slug :: "lowering \<Rightarrow> str list \<Rightarrow> int \<Rightarrow> py_error + str" where
  "multi_slug U names max_length =
     (case names of
        [] \<Rightarrow> Inl IndexError
      | first # rest \<Rightarrow>
          (case utf8_encode first of
             Inl e \<Rightarrow> Inl e
           | Inr b \<Rightarrow>
               (case hasher_update_rest b rest of
                  Inl e \<Rightarrow> Inl e
                | Inr fed \<Rightarrow>
                    let hash = take hash_length (sha256_hexdigest fed);
                        available_chars = max_length - (int hash_length + 1);
                        per_name = available_chars div int (length names);
                        name_max_length = per_name - 2
                    in if name_max_length < 2 then Inl ValueError
                       else Inr (str_join (of_ascii ''--'')
                                   (map (\<lambda>name. extract_safe_name U name name_max_length) names)
                                 @ of_ascii ''---'' @ hash))))"

section \<open>Vocabulary of the properties\<close>

text \<open>
  The character classes the properties speak about: the characters of a slug
  (\<open>[a-z0-9-]\<close>), lower-case letters and digits, and lower-case hexadecimal digits;
  \<open>slug_match\<close> is a full match of \<open>[a-z0-9-]+\<close>.
\<close>

definition slug_class :: "codepoint \<Rightarrow> bool" where
  "slug_class c = (in_range 97 122 c \<or> in_range 48 57 c \<or> c = 45)"

definition alnum_lower_class :: "codepoint \<Rightarrow> bool" where
  "alnum_lower_class c = (in_range 97 122 c \<or> in_range 48 57 c)"

definition hex_class :: "codepoint \<Rightarrow> bool" where
  "hex_class c = (in_range 48 57 c \<or> in_range 97 102 c)"

definition slug_match :: "str \<Rightarrow> bool" where
  "slug_match r = (r \<noteq> [] \<and> list_all slug_class r)"

section \<open>Facts about the model\<close>

subsection \<open>Module constants and string methods\<close>

lemma ascii_lowercase_upt: "ascii_lowercase = [97..<123]"
  by (simp add: ascii_lowercase_def of_ascii_def upt_rec)

lemma digits_upt: "digits = [48..<58]"
  by (simp add: digits_def of_ascii_def upt_rec)

lemma ascii_uppercase_upt: "ascii_uppercase = [65..<91]"
  by (simp add: ascii_uppercase_def of_ascii_def upt_rec)

lemma singleton_in_tuple_of: "[c] \<in> set (tuple_of s) \<longleftrightarrow> c \<in> set s"
  by (auto simp: tuple_of_def)

lemma in_ascii_lowercase: "c \<in> set ascii_lowercase \<longleftrightarrow> in_range 97 122 c"
  unfolding ascii_lowercase_upt in_range_def set_upt atLeastLessThan_iff by arith

lemma in_ascii_uppercase: "c \<in> set ascii_uppercase \<longleftrightarrow> in_range 65 90 c"
  unfolding ascii_uppercase_upt in_range_def set_upt atLeastLessThan_iff by arith

lemma in_digits: "c \<in> set digits \<longleftrightarrow> in_range 48 57 c"
  unfolding digits_upt in_range_def set_upt atLeastLessThan_iff by arith

lemma in_alphanum_lower: "[c] \<in> set alphanum_lower \<longleftrightarrow> alnum_lower_class c"
  by (simp add: alphanum_lower_def singleton_in_tuple_of in_ascii_lowercase in_digits
      alnum_lower_class_def)

lemma in_lower_plus_hyphen: "[c] \<in> set lower_plus_hyphen \<longleftrightarrow> slug_class c"
  by (auto simp: lower_plus_hyphen_def in_alphanum_lower alnum_lower_class_def slug_class_def
      of_ascii_def)

lemma startswith_tuple_of: "startswith s (tuple_of t) \<longleftrightarrow> s \<noteq> [] \<and> hd s \<in> set t"
  by (cases s) (auto simp: startswith_def tuple_of_def list_ex_iff)

lemma endswith_tuple_of: "endswith s (tuple_of t) \<longleftrightarrow> s \<noteq> [] \<and> last s \<in> set t"
proof (cases s rule: rev_cases)
  case Nil
  then show ?thesis by (auto simp: endswith_def tuple_of_def list_ex_iff)
next
  case (snoc ys y)
  then show ?thesis by (auto simp: endswith_def tuple_of_def list_ex_iff suffix_def)
qed

lemma startswith_alphanum_lower:
  "startswith s alphanum_lower \<longleftrightarrow> s \<noteq> [] \<and> alnum_lower_class (hd s)"
  using in_alphanum_lower [of "hd s"]
  by (simp add: alphanum_lower_def startswith_tuple_of singleton_in_tuple_of)

lemma endswith_alphanum_lower:
  "endswith s alphanum_lower \<longleftrightarrow> s \<noteq> [] \<and> alnum_lower_class (last s)"
  using in_alphanum_lower [of "last s"]
  by (simp add: alphanum_lower_def endswith_tuple_of singleton_in_tuple_of)

lemma alphanum_lower_nonempty: "alphanum_lower \<noteq> []"
  by (simp add: alphanum_lower_def tuple_of_def ascii_lowercase_upt upt_rec)

subsection \<open>The substitution of hyphen runs\<close>

lemma hyphen_plus_sub_Nil_iff: "hyphen_plus_sub s = [] \<longleftrightarrow> s = []"
  by (induction s rule: hyphen_plus_sub.induct) auto

lemma hd_hyphen_plus_sub: "hd (hyphen_plus_sub s) = hd s"
  by (induction s rule: hyphen_plus_sub.induct) auto

lemma set_hyphen_plus_sub: "set (hyphen_plus_sub s) \<subseteq> set s"
proof (induction s rule: hyphen_plus_sub.induct)
  case (3 c d cs)
  then show ?case
    using set_dropWhileD [of _ "\<lambda>e. e = 45" cs] by (auto split: if_splits)
qed auto

lemma length_hyphen_plus_sub: "length (hyphen_plus_sub s) \<le> length s"
proof (induction s rule: hyphen_plus_sub.induct)
  case (3 c d cs)
  then show ?case
    using length_dropWhile_le [of "\<lambda>e. e = 45" cs] by (auto split: if_splits)
qed auto

lemma hd_dropWhile_hyphen: "dropWhile (\<lambda>e. e = (45::nat)) cs \<noteq> [] \<Longrightarrow> hd (dropWhile (\<lambda>e. e = 45) cs) \<noteq> 45"
  using hd_dropWhile [of "\<lambda>e. e = (45::nat)" cs] by simp

lemma no_double_hyphen_plus_sub: "\<not> sublist [45, 45] (hyphen_plus_sub s)"
proof (induction s rule: hyphen_plus_sub.induct)
  case 1
  then show ?case by simp
next
  case (2 c)
  then show ?case by (simp add: sublist_Cons_right)
next
  case (3 c d cs)
  show ?case
  proof (cases "c = 45 \<and> d = 45")
    case True
    let ?r = "dropWhile (\<lambda>e. e = 45) cs"
    have ih: "\<not> sublist [45, 45] (hyphen_plus_sub ?r)" using 3(1) True by simp
    have "\<not> prefix [45] (hyphen_plus_sub ?r)"
    proof (cases "?r = []")
      case True
      then have "hyphen_plus_sub ?r = []" by (simp only: hyphen_plus_sub.simps)
      then show ?thesis by (simp only: prefix_Nil) simp
    next
      case False
      then have "hd (hyphen_plus_sub ?r) \<noteq> 45"
        using hd_dropWhile_hyphen [of cs] by (simp add: hd_hyphen_plus_sub)
      then show ?thesis by (cases "hyphen_plus_sub ?r") auto
    qed
    with ih True show ?thesis by (simp add: sublist_Cons_right)
  next
    case False
    then have ih: "\<not> sublist [45, 45] (hyphen_plus_sub (d # cs))" using 3(2) by simp
    have "hyphen_plus_sub (d # cs) \<noteq> []" by (simp add: hyphen_plus_sub_Nil_iff)
    then obtain y ys where e: "hyphen_plus_sub (d # cs) = y # ys"
      by (cases "hyphen_plus_sub (d # cs)") auto
    have "y = d" using hd_hyphen_plus_sub [of "d # cs"] e by simp
    with False ih e show ?thesis by (auto simp: sublist_Cons_right)
  qed
qed

subsection \<open>The steps of the extractor\<close>

lemma of_ascii_hyphen: "of_ascii ''-'' = [45]"
  by (simp add: of_ascii_def)

lemma of_ascii_x: "of_ascii ''x'' = [120]"
  by (simp add: of_ascii_def)

lemma of_ascii_dd: "of_ascii ''--'' = [45, 45]"
  by (simp add: of_ascii_def)

lemma of_ascii_ddd: "of_ascii ''---'' = [45, 45, 45]"
  by (simp add: of_ascii_def)

lemma prefix_rstrip: "prefix (rstrip cs t) t"
proof -
  have "rstrip cs t = take (length t - length (takeWhile (\<lambda>c. c \<in> set cs) (rev t))) t"
    by (simp add: rstrip_def dropWhile_eq_drop rev_drop)
  then show ?thesis by (simp add: take_is_prefix)
qed

lemma last_rstrip: "rstrip cs t \<noteq> [] \<Longrightarrow> last (rstrip cs t) \<notin> set cs"
proof -
  assume ne: "rstrip cs t \<noteq> []"
  let ?d = "dropWhile (\<lambda>c. c \<in> set cs) (rev t)"
  from ne have d: "?d \<noteq> []" by (simp add: rstrip_def)
  then have "hd ?d \<notin> set cs" using hd_dropWhile [of "\<lambda>c. c \<in> set cs" "rev t"] by simp
  moreover have "last (rstrip cs t) = hd ?d" using d by (simp add: rstrip_def last_rev)
  ultimately show ?thesis by simp
qed

lemma prefix_slice_to: "prefix (slice_to n s) s"
  by (simp add: slice_to_def take_is_prefix)

lemma length_slice_to: "0 \<le> n \<Longrightarrow> int (length (slice_to n s)) \<le> n"
  by (simp add: slice_to_def)

lemma hd_lstrip: "lstrip cs s \<noteq> [] \<Longrightarrow> hd (lstrip cs s) \<notin> set cs"
  using hd_dropWhile [of "\<lambda>c. c \<in> set cs" s] by (simp add: lstrip_def)

lemma set_lstrip: "set (lstrip cs s) \<subseteq> set s"
  using set_dropWhileD [of _ "\<lambda>c. c \<in> set cs" s] by (auto simp: lstrip_def)

lemma prefix_hd: "prefix u g \<Longrightarrow> u \<noteq> [] \<Longrightarrow> hd u = hd g"
  by (auto simp: prefix_def)

lemma prefix_no_sublist: "prefix u g \<Longrightarrow> \<not> sublist x g \<Longrightarrow> \<not> sublist x u"
  using prefix_imp_sublist sublist_order.order_trans by blast

text \<open>The three rewriting steps of the extractor, on any string of slug characters.\<close>

lemma extract_steps:
  assumes f: "list_all slug_class f" and n: "1 \<le> n"
  defines "u \<equiv> rstrip [45] (slice_to n (hyphen_plus_sub (lstrip [45] f)))"
  shows "list_all slug_class u" and "int (length u) \<le> n" and "\<not> sublist [45, 45] u"
    and "u \<noteq> [] \<Longrightarrow> hd u \<noteq> 45" and "u \<noteq> [] \<Longrightarrow> last u \<noteq> 45"
proof -
  let ?g = "hyphen_plus_sub (lstrip [45] f)"
  have pre: "prefix u ?g"
    unfolding u_def using prefix_rstrip prefix_slice_to prefix_order.order_trans by blast
  have "set ?g \<subseteq> set f" using set_hyphen_plus_sub set_lstrip by blast
  with pre have "set u \<subseteq> set f" using set_mono_prefix by blast
  with f show "list_all slug_class u" by (auto simp: list_all_iff)
  have "length u \<le> length (slice_to n ?g)"
    unfolding u_def using prefix_rstrip prefix_length_le by blast
  with length_slice_to [of n ?g] n show "int (length u) \<le> n" by linarith
  show "\<not> sublist [45, 45] u"
    using pre no_double_hyphen_plus_sub prefix_no_sublist by blast
  show "hd u \<noteq> 45" if "u \<noteq> []"
  proof -
    from that pre have ne: "?g \<noteq> []" by auto
    then have "lstrip [45] f \<noteq> []" by (simp add: hyphen_plus_sub_Nil_iff)
    then have "hd (lstrip [45] f) \<noteq> 45" using hd_lstrip [of "[45]" f] by simp
    then have "hd ?g \<noteq> 45" by (simp add: hd_hyphen_plus_sub)
    with prefix_hd [OF pre that] show ?thesis by simp
  qed
  show "last u \<noteq> 45" if "u \<noteq> []"
    using that last_rstrip [of "[45]" "slice_to n ?g"] by (simp add: u_def)
qed

lemma filter_slug_class:
  "list_all slug_class (filter (\<lambda>c. [c] \<in> set lower_plus_hyphen) s)"
  by (simp add: list_all_iff in_lower_plus_hyphen)

lemma slug_class_x: "slug_class 120"
  by (simp add: slug_class_def in_range_def)

lemma extract_safe_name_props:
  fixes U :: lowering and s :: str and n :: int
  assumes n: "1 \<le> n"
  defines "e \<equiv> extract_safe_name U s n"
  shows "e \<noteq> []" and "int (length e) \<le> n" and "list_all slug_class e"
    and "hd e \<noteq> 45" and "last e \<noteq> 45" and "\<not> sublist [45, 45] e"
proof -
  let ?f = "filter (\<lambda>c. [c] \<in> set lower_plus_hyphen) (str_lower U s)"
  let ?u = "rstrip [45] (slice_to n (hyphen_plus_sub (lstrip [45] ?f)))"
  have e: "e = (if ?u = [] then [120] else ?u)"
    by (simp add: e_def extract_safe_name_def of_ascii_hyphen of_ascii_x)
  note st = extract_steps [OF filter_slug_class [of "str_lower U s"] n]
  show "e \<noteq> []" by (simp add: e)
  show "int (length e) \<le> n" using st(2) n by (simp add: e)
  show "list_all slug_class e" using st(1) slug_class_x by (simp add: e)
  show "hd e \<noteq> 45" using st(4) by (simp add: e)
  show "last e \<noteq> 45" using st(5) by (simp add: e)
  show "\<not> sublist [45, 45] e" using st(3) by (simp add: e sublist_Cons_right)
qed

subsection \<open>The hexadecimal digest\<close>

lemma hexdigit_class: "d < 16 \<Longrightarrow> hex_class (hexdigit d)"
  by (simp add: hexdigit_def hex_class_def in_range_def)

lemma length_hex_word: "length (hex_word w) = 8"
  by (simp add: hex_word_def)

lemma hex_word_class: "list_all hex_class (hex_word w)"
  by (simp add: hex_word_def list_all_iff hexdigit_class)

lemma length_sha256_hexdigest: "length (sha256_hexdigest bs) = 64"
  by (simp add: sha256_hexdigest_def length_hex_word split: prod.split)

lemma sha256_hexdigest_class: "list_all hex_class (sha256_hexdigest bs)"
  by (simp add: sha256_hexdigest_def hex_word_class split: prod.split)

lemma hash_prefix_props:
  fixes bs :: "byte list"
  defines "h \<equiv> take hash_length (sha256_hexdigest bs)"
  shows "length h = 8" and "list_all hex_class h"
proof -
  show "length h = 8" by (simp add: h_def hash_length_def length_sha256_hexdigest)
  have "set h \<subseteq> set (sha256_hexdigest bs)" unfolding h_def by (rule set_take_subset)
  with sha256_hexdigest_class [of bs] show "list_all hex_class h"
    by (auto simp: list_all_iff)
qed

lemma hex_class_slug: "hex_class c \<Longrightarrow> slug_class c"
  by (auto simp: hex_class_def slug_class_def in_range_def)

lemma hex_class_not_hyphen: "hex_class c \<Longrightarrow> c \<noteq> 45"
  by (auto simp: hex_class_def in_range_def)

lemma hex_class_alnum_lower: "hex_class c \<Longrightarrow> alnum_lower_class c"
  by (auto simp: hex_class_def alnum_lower_class_def in_range_def)

subsection \<open>Encoding\<close>

lemma utf8_char_Inr_iff: "(\<exists>b. utf8_char c = Inr b) \<longleftrightarrow> encodable_char c"
  by (auto simp: utf8_char_def encodable_char_def)

lemma utf8_char_Inl: "utf8_char c = Inl e \<Longrightarrow> e = UnicodeEncodeError \<and> \<not> encodable_char c"
  by (auto simp: utf8_char_def encodable_char_def split: if_splits)

lemma utf8_encode_Inr_iff: "(\<exists>b. utf8_encode s = Inr b) \<longleftrightarrow> utf8_encodable s"
proof (induction s)
  case Nil
  then show ?case by (simp add: utf8_encodable_def)
next
  case (Cons c cs)
  show ?case
  proof (cases "utf8_char c")
    case (Inl e)
    with utf8_char_Inl [of c e] show ?thesis by (simp add: utf8_encodable_def)
  next
    case (Inr b)
    then have "encodable_char c" using utf8_char_Inr_iff [of c] by blast
    with Inr Cons show ?thesis by (auto simp: utf8_encodable_def split: sum.splits)
  qed
qed

lemma utf8_encode_Inl: "utf8_encode s = Inl e \<Longrightarrow> e = UnicodeEncodeError"
proof (induction s)
  case Nil
  then show ?case by simp
next
  case (Cons c cs)
  then show ?case using utf8_char_Inl [of c] by (auto split: sum.splits)
qed

lemma utf8_encode_cases:
  "(utf8_encodable s \<and> (\<exists>b. utf8_encode s = Inr b)) \<or>
   (\<not> utf8_encodable s \<and> utf8_encode s = Inl UnicodeEncodeError)"
proof (cases "utf8_encode s")
  case (Inl e)
  with utf8_encode_Inl [of s e] utf8_encode_Inr_iff [of s] show ?thesis by auto
next
  case (Inr b)
  with utf8_encode_Inr_iff [of s] show ?thesis by auto
qed

lemma hasher_update_rest_cases:
  "(list_all utf8_encodable ns \<and> (\<exists>b. hasher_update_rest fed ns = Inr b)) \<or>
   (\<not> list_all utf8_encodable ns \<and> hasher_update_rest fed ns = Inl UnicodeEncodeError)"
proof (induction ns arbitrary: fed)
  case Nil
  then show ?case by simp
next
  case (Cons n ns)
  from utf8_encode_cases [of n] show ?case
  proof
    assume "utf8_encodable n \<and> (\<exists>b. utf8_encode n = Inr b)"
    then obtain b where b: "utf8_encodable n" "utf8_encode n = Inr b" by blast
    with Cons [of "fed @ [0xFF] @ b"] show ?thesis by auto
  next
    assume "\<not> utf8_encodable n \<and> utf8_encode n = Inl UnicodeEncodeError"
    then show ?thesis by simp
  qed
qed

subsection \<open>Occurrences of the delimiters\<close>

lemma occurrences_Nil: "occurrences sub [] = []"
  by (simp add: occurrences_def)

lemma occurrences_Cons:
  "occurrences sub (c # s) =
     (if prefix sub (c # s) then [0] else []) @ map Suc (occurrences sub s)"
proof -
  have "[0..<Suc (length s)] = 0 # [Suc 0..<Suc (length s)]"
    by (rule upt_conv_Cons) simp
  also have "[Suc 0..<Suc (length s)] = map Suc [0..<length s]"
    by (rule map_Suc_upt [symmetric])
  finally have "[0..<length (c # s)] = 0 # map Suc [0..<length s]"
    by (simp only: length_Cons)
  then show ?thesis
    unfolding occurrences_def by (simp only: filter.simps filter_map comp_def) simp
qed

lemma occurrences_absent: "x \<notin> set s \<Longrightarrow> occurrences (x # xs) s = []"
proof -
  assume x: "x \<notin> set s"
  have "\<not> prefix (x # xs) (drop i s)" for i
  proof
    assume "prefix (x # xs) (drop i s)"
    then have "x \<in> set (drop i s)" using set_mono_prefix by fastforce
    with x show False using in_set_dropD by fastforce
  qed
  then show ?thesis by (simp add: occurrences_def)
qed

lemma mem_occurrences:
  "i \<in> set (occurrences sub s) \<longleftrightarrow> i < length s \<and> prefix sub (drop i s)"
  by (auto simp: occurrences_def)

text \<open>
  A string without two adjacent hyphens and without a final hyphen, then the delimiter,
  then a string without hyphens: the delimiter is the only place with adjacent hyphens.
\<close>

lemma occurrences_delimiter:
  assumes "\<not> sublist [45, 45] a" and "a = [] \<or> last a \<noteq> 45" and "45 \<notin> set h"
  shows "occurrences [45, 45, 45] (a @ [45, 45, 45] @ h) = [length a] \<and>
         occurrences [45, 45] (a @ [45, 45, 45] @ h) = [length a, Suc (length a)]"
  using assms
proof (induction a)
  case Nil
  have "\<not> prefix [45] h" and "\<not> prefix [45, 45] h" using Nil(3) by (cases h; auto)+
  then show ?case using Nil(3) by (simp add: occurrences_Cons occurrences_absent)
next
  case (Cons c a)
  have na: "\<not> sublist [45, 45] a" using Cons.prems(1) by (simp add: sublist_Cons_right)
  have la: "a = [] \<or> last a \<noteq> 45" using Cons.prems(2) by (auto split: if_splits)
  have np: "\<not> (c = 45 \<and> prefix [45] (a @ [45, 45, 45] @ h))"
  proof (cases a)
    case Nil
    then show ?thesis using Cons.prems(2) by simp
  next
    case (Cons y ys)
    then show ?thesis using Cons.prems(1) by (auto simp: sublist_Cons_right)
  qed
  have "prefix [45, 45] z \<Longrightarrow> prefix [45] z" for z :: str
    by (auto simp: prefix_def)
  with Cons.IH [OF na la Cons.prems(3)] np show ?case
    by (auto simp: occurrences_Cons)
qed

text \<open>Two adjacent hyphens between a non-hyphen and a non-hyphen.\<close>

lemma drop_length_minus_one:
  "x \<noteq> [] \<Longrightarrow> drop (length x - 1) (x @ z) = last x # z"
  by (induction x rule: rev_induct) auto

lemma exact_pair_occurrences:
  fixes x y :: str
  assumes "x = [] \<or> last x \<noteq> 45" and "y \<noteq> []" and "hd y \<noteq> 45"
  defines "m \<equiv> x @ [45, 45] @ y"
  shows "length x \<in> set (occurrences [45, 45] m)"
    and "Suc (length x) \<notin> set (occurrences [45, 45] m)"
    and "x \<noteq> [] \<Longrightarrow> length x - 1 \<notin> set (occurrences [45, 45] m)"
proof -
  show "length x \<in> set (occurrences [45, 45] m)"
    by (simp add: mem_occurrences m_def)
  have "drop (Suc (length x)) m = 45 # y" by (simp add: m_def)
  then show "Suc (length x) \<notin> set (occurrences [45, 45] m)"
    using assms(2,3) by (cases y) (auto simp: mem_occurrences)
  show "length x - 1 \<notin> set (occurrences [45, 45] m)" if "x \<noteq> []"
  proof -
    have "drop (length x - 1) m = last x # [45, 45] @ y"
      using drop_length_minus_one [OF that] by (simp add: m_def)
    then show ?thesis using assms(1) that by (simp add: mem_occurrences)
  qed
qed

lemma delimiter_not_exact_pair:
  fixes a h x y :: str
  assumes a: "\<not> sublist [45, 45] a" "a = [] \<or> last a \<noteq> 45" "45 \<notin> set h"
    and x: "x = [] \<or> last x \<noteq> 45" "y \<noteq> []" "hd y \<noteq> 45"
  shows "a @ [45, 45, 45] @ h \<noteq> x @ [45, 45] @ y"
proof
  assume eq: "a @ [45, 45, 45] @ h = x @ [45, 45] @ y"
  let ?m = "x @ [45, 45] @ y"
  have occ: "set (occurrences [45, 45] ?m) = {length a, Suc (length a)}"
    using occurrences_delimiter [OF a] eq by auto
  note ex = exact_pair_occurrences [OF x]
  from ex(1) occ have "length x = length a \<or> length x = Suc (length a)" by auto
  then show False
  proof
    assume "length x = length a"
    with ex(2) occ show False by auto
  next
    assume l: "length x = Suc (length a)"
    then have "x \<noteq> []" by auto
    from ex(3) [OF this] l occ show False by auto
  qed
qed

subsection \<open>The hashed slug\<close>

lemma strip_and_hash_unfold:
  "strip_and_hash U s M =
     (if M < 12 then Inl ValueError
      else case utf8_encode s of
             Inl e \<Rightarrow> Inl e
           | Inr b \<Rightarrow> Inr (extract_safe_name U s (M - 11) @ [45, 45, 45]
                           @ take hash_length (sha256_hexdigest b)))"
  by (simp add: strip_and_hash_def hash_length_def of_ascii_ddd Let_def split: sum.split)

lemma strip_and_hash_InrD:
  assumes "strip_and_hash U s M = Inr r"
  shows "12 \<le> M" and "utf8_encodable s"
    and "\<exists>b. r = extract_safe_name U s (M - 11) @ [45, 45, 45]
                  @ take hash_length (sha256_hexdigest b)"
proof -
  from assms show m: "12 \<le> M" by (simp add: strip_and_hash_unfold split: if_splits)
  from assms m obtain b where b: "utf8_encode s = Inr b"
    by (cases "utf8_encode s") (auto simp: strip_and_hash_unfold)
  then show "utf8_encodable s" using utf8_encode_Inr_iff by blast
  from assms m b show "\<exists>b. r = extract_safe_name U s (M - 11) @ [45, 45, 45]
                  @ take hash_length (sha256_hexdigest b)"
    by (auto simp: strip_and_hash_unfold)
qed

lemma strip_and_hash_Inl:
  "strip_and_hash U s M = Inl e \<Longrightarrow>
     (e = ValueError \<and> M < 12) \<or> (e = UnicodeEncodeError \<and> 12 \<le> M \<and> \<not> utf8_encodable s)"
  using utf8_encode_cases [of s]
  by (auto simp: strip_and_hash_unfold split: if_splits sum.splits)

lemma strip_and_hash_returns:
  "12 \<le> M \<Longrightarrow> utf8_encodable s \<Longrightarrow> \<exists>r. strip_and_hash U s M = Inr r"
  using utf8_encode_cases [of s] by (auto simp: strip_and_hash_unfold)

text \<open>The shape of every hashed slug.\<close>

lemma hashed_slug_props:
  fixes U :: lowering and s :: str and n :: int and b :: "byte list"
  assumes n: "1 \<le> n"
  defines "r \<equiv> extract_safe_name U s n @ [45, 45, 45] @ take hash_length (sha256_hexdigest b)"
  shows "r \<noteq> []" and "int (length r) \<le> n + 11" and "list_all slug_class r"
    and "alnum_lower_class (hd r)" and "alnum_lower_class (last r)"
    and "length r = length (extract_safe_name U s n) + 11"
proof -
  let ?e = "extract_safe_name U s n"
  let ?h = "take hash_length (sha256_hexdigest b)"
  note e = extract_safe_name_props [OF n, of U s]
  note h = hash_prefix_props [of b]
  show "r \<noteq> []" by (simp add: r_def)
  show len: "length r = length ?e + 11" using h(1) by (simp add: r_def)
  show "int (length r) \<le> n + 11" using e(2) len by simp
  have "list_all slug_class ?h" using h(2) hex_class_slug by (auto simp: list_all_iff)
  then show "list_all slug_class r" using e(3) by (simp add: r_def slug_class_def)
  have "slug_class (hd ?e)" using e(1,3) by (cases ?e) auto
  with e(4) have "alnum_lower_class (hd ?e)"
    by (auto simp: slug_class_def alnum_lower_class_def)
  then show "alnum_lower_class (hd r)" using e(1) by (simp add: r_def)
  have hne: "?h \<noteq> []" using h(1) by auto
  then have "hex_class (last ?h)" using h(2) last_in_set [OF hne] by (auto simp: list_all_iff)
  then show "alnum_lower_class (last r)" using hne hex_class_alnum_lower by (simp add: r_def)
qed

lemma hashed_slug_occurrences:
  fixes U :: lowering and s :: str and n :: int and b :: "byte list"
  assumes n: "1 \<le> n"
  defines "e \<equiv> extract_safe_name U s n"
  defines "r \<equiv> e @ [45, 45, 45] @ take hash_length (sha256_hexdigest b)"
  shows "occurrences [45, 45, 45] r = [length e] \<and> occurrences [45, 45] r = [length e, Suc (length e)]"
proof -
  note e = extract_safe_name_props [OF n, of U s]
  note h = hash_prefix_props [of b]
  have "45 \<notin> set (take hash_length (sha256_hexdigest b))"
    using h(2) hex_class_not_hyphen by (auto simp: list_all_iff)
  with occurrences_delimiter [of e "take hash_length (sha256_hexdigest b)"] e(5,6)
  show ?thesis by (simp add: r_def e_def)
qed

subsection \<open>The rules over lower-case names\<close>

lemma object_pattern_alnum_last:
  assumes "s \<noteq> []" and "alnum_lower_class (last s)"
  shows "object_pattern s \<longleftrightarrow> list_all object_class s"
proof -
  have "last s \<noteq> 10" using assms(2) by (auto simp: alnum_lower_class_def in_range_def)
  with assms(1) show ?thesis by (auto simp: object_pattern_def class_plus_match_def)
qed

lemma is_valid_lower_rule:
  "is_valid_general s (Some alphanum_lower) (Some alphanum_lower) (Some object_pattern)
     (Some 1) (Some lim) \<longleftrightarrow>
   s \<noteq> [] \<and> (lim = 0 \<or> length s \<le> lim) \<and> alnum_lower_class (hd s) \<and>
   alnum_lower_class (last s) \<and> list_all object_class s"
proof (cases "s \<noteq> [] \<and> alnum_lower_class (last s)")
  case True
  then show ?thesis
    using object_pattern_alnum_last [of s]
    by (auto simp: is_valid_general_def startswith_alphanum_lower endswith_alphanum_lower
        alphanum_lower_nonempty)
next
  case False
  then show ?thesis
    by (cases s) (auto simp: is_valid_general_def startswith_alphanum_lower
        endswith_alphanum_lower alphanum_lower_nonempty)
qed

lemma is_valid_default_iff:
  "is_valid_default s \<longleftrightarrow>
   s \<noteq> [] \<and> length s \<le> 63 \<and> alnum_lower_class (hd s) \<and> alnum_lower_class (last s) \<and>
   list_all object_class s"
  by (simp only: is_valid_default_def is_valid_lower_rule) simp

lemma is_valid_object_name_iff:
  "is_valid_object_name s \<longleftrightarrow>
   s \<noteq> [] \<and> length s \<le> 255 \<and> alnum_lower_class (hd s) \<and> alnum_lower_class (last s) \<and>
   list_all object_class s"
  by (simp only: is_valid_object_name_def is_valid_lower_rule) simp

lemma slug_class_object: "slug_class c \<Longrightarrow> object_class c"
  by (auto simp: slug_class_def object_class_def)

lemma list_all_slug_object: "list_all slug_class r \<Longrightarrow> list_all object_class r"
  using slug_class_object by (auto simp: list_all_iff)

subsection \<open>Joined components\<close>

lemma str_join_slug_class:
  "list_all (list_all slug_class) parts \<Longrightarrow> list_all slug_class (str_join [45, 45] parts)"
  by (induction "[45, 45] :: str" parts rule: str_join.induct) (auto simp: slug_class_def)

lemma str_join_Cons_nonempty: "x \<noteq> [] \<Longrightarrow> str_join sep (x # xs) \<noteq> []"
  by (cases xs) auto

lemma hd_str_join_Cons: "x \<noteq> [] \<Longrightarrow> hd (str_join sep (x # xs)) = hd x"
  by (cases xs) auto

lemma multi_slug_unfold:
  "multi_slug U (first # rest) M =
     (case utf8_encode first of
        Inl e \<Rightarrow> Inl e
      | Inr b \<Rightarrow>
          (case hasher_update_rest b rest of
             Inl e \<Rightarrow> Inl e
           | Inr fed \<Rightarrow>
               if (M - 9) div int (length (first # rest)) - 2 < 2 then Inl ValueError
               else Inr (str_join [45, 45]
                           (map (\<lambda>name. extract_safe_name U name
                                   ((M - 9) div int (length (first # rest)) - 2))
                              (first # rest))
                         @ [45, 45, 45] @ take hash_length (sha256_hexdigest fed))))"
  by (simp add: multi_slug_def hash_length_def of_ascii_ddd of_ascii_dd Let_def
      split: sum.split)

lemma multi_slug_InrD:
  assumes "multi_slug U ns M = Inr r"
  defines "k \<equiv> (M - 9) div int (length ns) - 2"
  shows "ns \<noteq> []" and "2 \<le> k" and "list_all utf8_encodable ns"
    and "\<exists>fed. r = str_join [45, 45] (map (\<lambda>name. extract_safe_name U name k) ns)
                  @ [45, 45, 45] @ take hash_length (sha256_hexdigest fed)"
proof -
  from assms(1) show ne: "ns \<noteq> []" by (auto simp: multi_slug_def)
  then obtain first rest where ns: "ns = first # rest" by (cases ns) auto
  from assms(1) obtain b where b: "utf8_encode first = Inr b"
    unfolding ns multi_slug_unfold by (cases "utf8_encode first") auto
  from assms(1) b obtain fed where fed: "hasher_update_rest b rest = Inr fed"
    unfolding ns multi_slug_unfold by (cases "hasher_update_rest b rest") auto
  from assms(1) b fed show k: "2 \<le> k"
    unfolding ns multi_slug_unfold k_def by (auto split: if_splits)
  have "utf8_encodable first" using b utf8_encode_Inr_iff by blast
  moreover have "list_all utf8_encodable rest"
    using hasher_update_rest_cases [of rest b] fed by auto
  ultimately show "list_all utf8_encodable ns" by (simp add: ns)
  from assms(1) b fed k
  show "\<exists>fed. r = str_join [45, 45] (map (\<lambda>name. extract_safe_name U name k) ns)
                  @ [45, 45, 45] @ take hash_length (sha256_hexdigest fed)"
    unfolding ns multi_slug_unfold k_def by (auto split: if_splits)
qed

lemma multi_slug_encodable:
  assumes "ns \<noteq> []" and "list_all utf8_encodable ns"
  shows "multi_slug U ns M =
           (if (M - 9) div int (length ns) - 2 < 2 then Inl ValueError
            else Inr (str_join [45, 45]
                        (map (\<lambda>name. extract_safe_name U name ((M - 9) div int (length ns) - 2)) ns)
                      @ [45, 45, 45]
                      @ take hash_length (sha256_hexdigest
                          (projr (hasher_update_rest (projr (utf8_encode (hd ns))) (tl ns))))))"
proof -
  from assms(1) obtain first rest where ns: "ns = first # rest" by (cases ns) auto
  from assms(2) obtain b where b: "utf8_encode first = Inr b"
    using utf8_encode_cases [of first] by (auto simp: ns)
  from assms(2) obtain fed where fed: "hasher_update_rest b rest = Inr fed"
    using hasher_update_rest_cases [of rest b] by (auto simp: ns)
  show ?thesis unfolding ns multi_slug_unfold by (simp add: b fed)
qed

subsection \<open>Results of the slug functions\<close>

lemma safe_slug_cases:
  "safe_slug U s R ml = Inr r \<Longrightarrow>
     (r = s \<and> R s \<and> \<not> sublist (of_ascii ''--'') s \<and>
        (case ml of None \<Rightarrow> True | Some m \<Rightarrow> int (length s) \<le> m)) \<or>
     strip_and_hash U s (or_32 ml) = Inr r"
  by (auto simp: safe_slug_def split: if_splits)

lemma strip_and_hash_slug_match:
  assumes "strip_and_hash U s M = Inr r"
  shows "slug_match r" and "int (length r) \<le> M"
    and "alnum_lower_class (hd r)" and "alnum_lower_class (last r)"
proof -
  note d = strip_and_hash_InrD [OF assms]
  from d(1) have n: "1 \<le> M - 11" by simp
  from d(3) obtain b where r: "r = extract_safe_name U s (M - 11) @ [45, 45, 45]
                  @ take hash_length (sha256_hexdigest b)" by blast
  note p = hashed_slug_props [OF n, of U s b]
  show "slug_match r" using p(1,3) by (simp add: slug_match_def r)
  show "int (length r) \<le> M" using p(2) by (simp add: r)
  show "alnum_lower_class (hd r)" using p(4) by (simp add: r)
  show "alnum_lower_class (last r)" using p(5) by (simp only: r)
qed

lemma multi_slug_slug_match:
  assumes "multi_slug U ns M = Inr r"
  shows "slug_match r"
proof -
  define k where "k = (M - 9) div int (length ns) - 2"
  note d = multi_slug_InrD [OF assms, folded k_def]
  from d(2) have k1: "1 \<le> k" by simp
  from d(4) obtain fed where r: "r = str_join [45, 45] (map (\<lambda>name. extract_safe_name U name k) ns)
                  @ [45, 45, 45] @ take hash_length (sha256_hexdigest fed)" by blast
  have "list_all (list_all slug_class) (map (\<lambda>name. extract_safe_name U name k) ns)"
    using extract_safe_name_props(3) [OF k1] by (simp add: list_all_iff)
  then have j: "list_all slug_class (str_join [45, 45] (map (\<lambda>name. extract_safe_name U name k) ns))"
    by (rule str_join_slug_class)
  have "list_all slug_class (take hash_length (sha256_hexdigest fed))"
    using hash_prefix_props(2) [of fed] hex_class_slug by (auto simp: list_all_iff)
  with j show ?thesis by (simp add: slug_match_def r slug_class_def)
qed

lemma strip_and_hash_returns_bounded:
  assumes "utf8_encodable s" and "12 \<le> M"
  shows "\<exists>r. strip_and_hash U s M = Inr r \<and> int (length r) \<le> M"
  using strip_and_hash_returns [OF assms(2,1), of U] strip_and_hash_slug_match(2) by blast

text \<open>
  A list of one encodable component, with room for it (\<open>M \<ge> 13\<close>), is treated as the single
  name: same bytes hashed, same budget \<open>M - 11\<close>, nothing joined.
\<close>

lemma multi_slug_single:
  assumes "utf8_encodable n" and "13 \<le> M"
  shows "multi_slug U [n] M = strip_and_hash U n M"
proof -
  from assms(1) obtain b where b: "utf8_encode n = Inr b"
    using utf8_encode_cases [of n] by auto
  from assms(2) have "(M - 9) div int (length [n]) - 2 = M - 11" by simp
  with assms(2) b show ?thesis
    by (simp add: multi_slug_unfold strip_and_hash_unfold)
qed

subsection \<open>Hyphens under the label rule\<close>

lemma in_alphanum:
  "[c] \<in> set alphanum \<longleftrightarrow> in_range 97 122 c \<or> in_range 65 90 c \<or> in_range 48 57 c"
  by (simp add: alphanum_def ascii_letters_def singleton_in_tuple_of in_ascii_lowercase
      in_ascii_uppercase in_digits disj_assoc)

lemma alphanum_nonempty: "alphanum \<noteq> []"
  by (simp add: alphanum_def tuple_of_def ascii_letters_def ascii_lowercase_upt upt_rec)

lemma endswith_alphanum:
  "endswith s alphanum \<longleftrightarrow>
     s \<noteq> [] \<and> (in_range 97 122 (last s) \<or> in_range 65 90 (last s) \<or> in_range 48 57 (last s))"
  using in_alphanum [of "last s"]
  by (simp add: alphanum_def endswith_tuple_of singleton_in_tuple_of)

lemma label_class_hyphen: "\<not> label_class 45"
  by (simp add: label_class_def case_variants_def in_range_def)

text \<open>The label rule accepts no string with a hyphen in it.\<close>

lemma is_valid_label_rejects_hyphen:
  assumes "45 \<in> set s"
  shows "\<not> is_valid_label s"
proof
  assume v: "is_valid_label s"
  from assms have ne: "s \<noteq> []" by auto
  from v ne have e: "endswith s alphanum" and p: "label_pattern s"
    by (auto simp: is_valid_label_def is_valid_general_def alphanum_nonempty split: if_splits)
  from e have "last s \<noteq> 10" by (auto simp: endswith_alphanum in_range_def)
  with p ne have "list_all label_class s"
    by (auto simp: label_pattern_def class_plus_match_def)
  with assms label_class_hyphen show False by (auto simp: list_all_iff)
qed

text \<open>So no hashed slug is a valid label.\<close>

lemma hashed_slug_not_label:
  assumes "strip_and_hash U s M = Inr r"
  shows "\<not> is_valid_label r"
proof -
  from strip_and_hash_InrD(3) [OF assms] have "45 \<in> set r" by auto
  then show ?thesis by (rule is_valid_label_rejects_hyphen)
qed

subsection \<open>Evaluations on ASCII inputs\<close>

lemma encode_a: "utf8_encode (of_ascii ''a'') = Inr [97]"
  by code_simp

lemma extract_a: "extract_safe_name ascii_lowering (of_ascii ''a'') n = of_ascii ''a''" if "1 \<le> n"
proof -
  from that have "slice_to n [97] = [97]" by (cases "nat n") (auto simp: slice_to_def)
  then show ?thesis
  by (simp add: extract_safe_name_def str_lower_def ascii_lower_def of_ascii_def
        in_lower_plus_hyphen slug_class_def in_range_def lstrip_def rstrip_def)
qed

lemma encodable_a: "utf8_encodable (of_ascii ''a'')"
  by (simp add: utf8_encodable_def encodable_char_def of_ascii_def)

lemma encode_b: "utf8_encode (of_ascii ''b'') = Inr [98]"
  by code_simp

lemma extract_b: "extract_safe_name ascii_lowering (of_ascii ''b'') n = of_ascii ''b''" if "1 \<le> n"
proof -
  from that have "slice_to n [98] = [98]" by (cases "nat n") (auto simp: slice_to_def)
  then show ?thesis
  by (simp add: extract_safe_name_def str_lower_def ascii_lower_def of_ascii_def
        in_lower_plus_hyphen slug_class_def in_range_def lstrip_def rstrip_def)
qed

lemma sixty_four_A:
  "extract_safe_name ascii_lowering
     (of_ascii ''AAAAAAAAAAAAAAAAAAAAAAAAAAAAAAAAAAAAAAAAAAAAAAAAAAAAAAAAAAAAAAAA'') 53
   = of_ascii ''aaaaaaaaaaaaaaaaaaaaaaaaaaaaaaaaaaaaaaaaaaaaaaaaaaaaa''"
  by code_simp

lemma encode_sixty_four_A:
  "utf8_encode (of_ascii ''AAAAAAAAAAAAAAAAAAAAAAAAAAAAAAAAAAAAAAAAAAAAAAAAAAAAAAAAAAAAAAAA'')
   = Inr (replicate 64 65)"
  by code_simp

lemma not_valid_sixty_four_A:
  "\<not> is_valid_default (of_ascii ''AAAAAAAAAAAAAAAAAAAAAAAAAAAAAAAAAAAAAAAAAAAAAAAAAAAAAAAAAAAAAAAA'')"
  by code_simp

lemma no_dd_sixty_four_A:
  "\<not> sublist (of_ascii ''--'') (of_ascii ''AAAAAAAAAAAAAAAAAAAAAAAAAAAAAAAAAAAAAAAAAAAAAAAAAAAAAAAAAAAAAAAA'')"
  by code_simp

lemma extract_A_b: "extract_safe_name ascii_lowering (of_ascii ''A b'') 21 = of_ascii ''ab''"
  by code_simp

lemma encode_A_b: "utf8_encode (of_ascii ''A b'') = Inr [65, 32, 98]"
  by code_simp

lemma not_valid_A_b: "\<not> is_valid_default (of_ascii ''A b'')"
  by code_simp

lemma no_dd_A_b: "\<not> sublist (of_ascii ''--'') (of_ascii ''A b'')"
  by code_simp

section \<open>The properties\<close>

subsection \<open>Label validity\<close>

text \<open>
  C1. The label rule is meant to accept letters of either case, digits, \<open>.\<close>, \<open>-\<close> and
  \<open>_\<close> (between an alphanumeric first and last character, at most 63 characters, or the
  empty string). The compiled class \<open>[a-z0-9\.-_]\<close> reads \<open>\.-_\<close> as a range, so the code
  rejects the label \<open>a-b\<close>, whose hyphen lies outside every range of the class, and
  accepts \<open>a/b\<close>, whose slash lies inside the range from \<open>.\<close> to \<open>_\<close>.
\<close>
theorem is_valid_label_hyphen_range:
  "\<not> is_valid_label (of_ascii ''a-b'') \<and> is_valid_label (of_ascii ''a/b'')"
  by code_simp

subsection \<open>Characters of a slug\<close>

text \<open>
  A valid name is passed through as it is, with its dots: \<open>safe_slug("a.b")\<close> is
  \<open>"a.b"\<close>, which is no match of \<open>[a-z0-9-]+\<close>.
\<close>
theorem safe_slug_dot_counterexample:
  "safe_slug ascii_lowering (of_ascii ''a.b'') is_valid_default None = Inr (of_ascii ''a.b'') \<and>
   \<not> slug_match (of_ascii ''a.b'')"
  by code_simp

text \<open>
  C2. The string returned by \<open>safe_slug\<close>, for any validity predicate and any maximum
  length, is either the input itself, which then has no \<open>--\<close> and is accepted by the
  predicate, or matches \<open>[a-z0-9-]+\<close>; the string returned by \<open>multi_slug\<close> always
  matches \<open>[a-z0-9-]+\<close>.
\<close>
theorem slug_charset:
  "(safe_slug U s R ml = Inr r \<longrightarrow>
      (r = s \<and> R s \<and> \<not> sublist (of_ascii ''--'') s) \<or> slug_match r) \<and>
   (multi_slug U ns M = Inr r' \<longrightarrow> slug_match r')"
  using safe_slug_cases [of U s R ml r] strip_and_hash_slug_match(1) [of U s "or_32 ml" r]
    multi_slug_slug_match [of U ns M r'] by blast

text \<open>
  An instance: a name that is passed through, and the slug of the single component
  \<open>a\<close>.
\<close>
theorem slug_charset_witness:
  "safe_slug ascii_lowering (of_ascii ''a.b'') is_valid_default None = Inr (of_ascii ''a.b'') \<and>
   multi_slug ascii_lowering [of_ascii ''a''] 48
     = Inr (of_ascii ''a---'' @ take 8 (sha256_hexdigest [97])) \<and>
   is_valid_default (of_ascii ''a.b'') \<and>
   slug_match (of_ascii ''a---'' @ take 8 (sha256_hexdigest [97]))"
proof -
  have h1: "safe_slug ascii_lowering (of_ascii ''a.b'') is_valid_default None
              = Inr (of_ascii ''a.b'')"
    by code_simp
  have h2: "multi_slug ascii_lowering [of_ascii ''a''] 48
              = Inr (of_ascii ''a---'' @ take 8 (sha256_hexdigest [97]))"
    by (simp add: multi_slug_unfold encode_a extract_a hash_length_def) (simp add: of_ascii_def)
  have h3: "\<not> slug_match (of_ascii ''a.b'')" by code_simp
  from slug_charset [of ascii_lowering "of_ascii ''a.b''" is_valid_default None "of_ascii ''a.b''"
      "[of_ascii ''a'']" 48 "of_ascii ''a---'' @ take 8 (sha256_hexdigest [97])"] h1 h2 h3
  show ?thesis by blast
qed

subsection \<open>Multi-component slugs against single-name slugs\<close>

text \<open>
  For the one-component list \<open>["a"]\<close> and \<open>M = 48\<close> there is nothing to join:
  \<open>multi_slug(["a"], 48)\<close> and \<open>strip_and_hash("a", 48)\<close> hash the same bytes, extract the
  same safe name and return the same string.
\<close>
theorem multi_slug_single_counterexample:
  "multi_slug ascii_lowering [of_ascii ''a''] 48 = strip_and_hash ascii_lowering (of_ascii ''a'') 48 \<and>
   strip_and_hash ascii_lowering (of_ascii ''a'') 48
     = Inr (of_ascii ''a---'' @ take 8 (sha256_hexdigest [97]))"
  by (simp add: multi_slug_unfold strip_and_hash_unfold encode_a extract_a hash_length_def)
     (simp add: of_ascii_def)

text \<open>
  C3. For every list \<open>ns\<close> of at least two components, every maximum length \<open>M\<close> and every
  string \<open>s\<close>, what \<open>multi_slug(ns, M)\<close> returns is never what \<open>strip_and_hash(s, M)\<close>
  returns: the first has two hyphens between two characters that are no hyphens, the
  second has adjacent hyphens only inside its one \<open>---\<close>.
\<close>
theorem multi_slug_disjoint:
  assumes "2 \<le> length ns" and "multi_slug U ns M = Inr r"
  shows "strip_and_hash U s M \<noteq> Inr r"
proof
  assume sh: "strip_and_hash U s M = Inr r"
  define k where "k = (M - 9) div int (length ns) - 2"
  note d = multi_slug_InrD [OF assms(2), folded k_def]
  from d(2) have k1: "1 \<le> k" by simp
  from d(4) obtain fed where r: "r = str_join [45, 45] (map (\<lambda>name. extract_safe_name U name k) ns)
                  @ [45, 45, 45] @ take hash_length (sha256_hexdigest fed)" by blast
  from assms(1) obtain n1 n2 rest where ns: "ns = n1 # n2 # rest"
    by (cases ns; cases "tl ns") auto
  let ?e1 = "extract_safe_name U n1 k" and ?e2 = "extract_safe_name U n2 k"
  let ?y = "str_join [45, 45] (?e2 # map (\<lambda>name. extract_safe_name U name k) rest)
              @ [45, 45, 45] @ take hash_length (sha256_hexdigest fed)"
  have rm: "r = ?e1 @ [45, 45] @ ?y" by (simp add: r ns)
  note e1 = extract_safe_name_props [OF k1, of U n1]
  note e2 = extract_safe_name_props [OF k1, of U n2]
  have y1: "?y \<noteq> []" by simp
  have y2: "hd ?y \<noteq> 45"
    using e2(1,4) str_join_Cons_nonempty [OF e2(1)] hd_str_join_Cons [OF e2(1)]
    by (simp add: hd_append)
  note sd = strip_and_hash_InrD [OF sh]
  from sd(1) have n: "1 \<le> M - 11" by simp
  from sd(3) obtain b where ra: "r = extract_safe_name U s (M - 11) @ [45, 45, 45]
                  @ take hash_length (sha256_hexdigest b)" by blast
  note a = extract_safe_name_props [OF n, of U s]
  have h: "45 \<notin> set (take hash_length (sha256_hexdigest b))"
    using hash_prefix_props(2) [of b] hex_class_not_hyphen by (auto simp: list_all_iff)
  from delimiter_not_exact_pair [OF a(6) _ h _ y1 y2, of ?e1] a(5) e1(5) ra rm
  show False by simp
qed

text \<open>
  An instance: the components \<open>a\<close> and \<open>b\<close> against the single name \<open>a--b\<close>.
\<close>
theorem multi_slug_disjoint_witness:
  "2 \<le> length [of_ascii ''a'', of_ascii ''b''] \<and>
   multi_slug ascii_lowering [of_ascii ''a'', of_ascii ''b''] 48
     = Inr (of_ascii ''a--b---'' @ take 8 (sha256_hexdigest [97, 255, 98])) \<and>
   strip_and_hash ascii_lowering (of_ascii ''a--b'') 48
     \<noteq> Inr (of_ascii ''a--b---'' @ take 8 (sha256_hexdigest [97, 255, 98]))"
proof -
  have h1: "2 \<le> length [of_ascii ''a'', of_ascii ''b'']" by simp
  have h2: "multi_slug ascii_lowering [of_ascii ''a'', of_ascii ''b''] 48
     = Inr (of_ascii ''a--b---'' @ take 8 (sha256_hexdigest [97, 255, 98]))"
    by (simp add: multi_slug_unfold encode_a encode_b extract_a extract_b hash_length_def)
       (simp add: of_ascii_def)
  from multi_slug_disjoint [OF h1 h2, of "of_ascii ''a--b''"] h1 h2 show ?thesis by blast
qed

subsection \<open>The slug satisfies its rule\<close>

text \<open>
  A maximum length above the limit of the rule is not clamped: for a name of 64 capital
  letters and \<open>max_length = 64\<close> under the default rule, the slug has 64 characters and
  the default rule, whose limit is 63, rejects it.
\<close>
theorem safe_slug_overlong_counterexample:
  "safe_slug ascii_lowering
     (of_ascii ''AAAAAAAAAAAAAAAAAAAAAAAAAAAAAAAAAAAAAAAAAAAAAAAAAAAAAAAAAAAAAAAA'')
     is_valid_default (Some 64)
   = Inr (of_ascii ''aaaaaaaaaaaaaaaaaaaaaaaaaaaaaaaaaaaaaaaaaaaaaaaaaaaaa---''
          @ take 8 (sha256_hexdigest (replicate 64 65))) \<and>
   \<not> is_valid_default
       (of_ascii ''aaaaaaaaaaaaaaaaaaaaaaaaaaaaaaaaaaaaaaaaaaaaaaaaaaaaa---''
          @ take 8 (sha256_hexdigest (replicate 64 65)))"
proof -
  have "length (of_ascii ''aaaaaaaaaaaaaaaaaaaaaaaaaaaaaaaaaaaaaaaaaaaaaaaaaaaaa---''
          @ take 8 (sha256_hexdigest (replicate 64 65))) = 64"
    by (simp add: of_ascii_def length_sha256_hexdigest)
  then have "\<not> is_valid_default
       (of_ascii ''aaaaaaaaaaaaaaaaaaaaaaaaaaaaaaaaaaaaaaaaaaaaaaaaaaaaa---''
          @ take 8 (sha256_hexdigest (replicate 64 65)))"
    by (simp only: is_valid_default_iff) simp
  moreover have "safe_slug ascii_lowering
     (of_ascii ''AAAAAAAAAAAAAAAAAAAAAAAAAAAAAAAAAAAAAAAAAAAAAAAAAAAAAAAAAAAAAAAA'')
     is_valid_default (Some 64)
   = Inr (of_ascii ''aaaaaaaaaaaaaaaaaaaaaaaaaaaaaaaaaaaaaaaaaaaaaaaaaaaaa---''
          @ take 8 (sha256_hexdigest (replicate 64 65)))"
    by (simp add: safe_slug_def no_dd_sixty_four_A not_valid_sixty_four_A or_32_def
        strip_and_hash_unfold encode_sixty_four_A sixty_four_A hash_length_def)
       (simp add: of_ascii_def)
  ultimately show ?thesis by blast
qed

text \<open>
  C4. Let the predicate \<open>R\<close> be the default rule (limit 63) or the object-name rule
  (limit 255), and let the effective maximum length \<open>max_length or 32\<close> be at most the
  limit of \<open>R\<close>. Then every string \<open>r\<close> returned by \<open>safe_slug(s, R, max_length)\<close>
  satisfies \<open>R\<close>, and \<open>r\<close> is at most the effective maximum length long, unless no
  maximum length was given and \<open>r\<close> is the input passed through (which is then bounded by
  the limit of \<open>R\<close> alone).
\<close>
theorem safe_slug_satisfies_rule:
  assumes "(R = is_valid_default \<and> lim = 63) \<or> (R = is_valid_object_name \<and> lim = 255)"
    and "or_32 max_length \<le> lim"
    and "safe_slug U s R max_length = Inr r"
  shows "R r \<and> ((max_length = None \<and> r = s) \<or> int (length r) \<le> or_32 max_length)"
proof -
  have R_iff: "R t \<longleftrightarrow> t \<noteq> [] \<and> int (length t) \<le> lim \<and> alnum_lower_class (hd t) \<and>
      alnum_lower_class (last t) \<and> list_all object_class t" for t
    using assms(1) by (auto simp: is_valid_default_iff is_valid_object_name_iff)
  from safe_slug_cases [OF assms(3)] show ?thesis
  proof
    assume p: "r = s \<and> R s \<and> \<not> sublist (of_ascii ''--'') s \<and>
        (case max_length of None \<Rightarrow> True | Some m \<Rightarrow> int (length s) \<le> m)"
    then have ne: "s \<noteq> []" using R_iff by blast
    show ?thesis
    proof (cases max_length)
      case None
      with p show ?thesis by simp
    next
      case (Some m)
      with p ne have "m \<noteq> 0" and "int (length s) \<le> m" by auto
      with p Some show ?thesis by (simp add: or_32_def)
    qed
  next
    assume h: "strip_and_hash U s (or_32 max_length) = Inr r"
    note m = strip_and_hash_slug_match [OF h]
    from m(1) have "r \<noteq> []" and "list_all object_class r"
      using list_all_slug_object by (auto simp: slug_match_def)
    with m(2,3,4) assms(2) have "R r" using R_iff by auto
    with m(2) show ?thesis by simp
  qed
qed

text \<open>
  An instance: the name \<open>A b\<close> under the default rule and no maximum length.
\<close>
theorem safe_slug_satisfies_rule_witness:
  "or_32 None \<le> 63 \<and>
   safe_slug ascii_lowering (of_ascii ''A b'') is_valid_default None
     = Inr (of_ascii ''ab---'' @ take 8 (sha256_hexdigest [65, 32, 98])) \<and>
   is_valid_default (of_ascii ''ab---'' @ take 8 (sha256_hexdigest [65, 32, 98])) \<and>
   int (length (of_ascii ''ab---'' @ take 8 (sha256_hexdigest [65, 32, 98]))) \<le> or_32 None"
proof -
  have h2: "or_32 None \<le> 63" by (simp add: or_32_def)
  have h3: "safe_slug ascii_lowering (of_ascii ''A b'') is_valid_default None
     = Inr (of_ascii ''ab---'' @ take 8 (sha256_hexdigest [65, 32, 98]))"
    by (simp add: safe_slug_def no_dd_A_b not_valid_A_b or_32_def
        strip_and_hash_unfold encode_A_b extract_A_b hash_length_def)
       (simp add: of_ascii_def)
  have ne: "of_ascii ''ab---'' @ take 8 (sha256_hexdigest [65, 32, 98]) \<noteq> of_ascii ''A b''"
    by (simp add: of_ascii_def)
  have h1: "(is_valid_default = is_valid_default \<and> (63::int) = 63) \<or>
            (is_valid_default = is_valid_object_name \<and> (63::int) = 255)" by simp
  from safe_slug_satisfies_rule [OF h1 h2 h3] h2 h3 ne show ?thesis by auto
qed

subsection \<open>Valid names pass through\<close>

text \<open>
  C5. If \<open>is_valid_default(s)\<close> holds, \<open>s\<close> contains no \<open>--\<close>, and \<open>len(s) \<le> max_length\<close>
  (or no maximum length is given), then \<open>safe_slug(s, is_valid_default, max_length)\<close>
  returns \<open>s\<close> unchanged.
\<close>
theorem safe_slug_identity:
  assumes "is_valid_default s" and "\<not> sublist (of_ascii ''--'') s"
    and "case max_length of None \<Rightarrow> True | Some m \<Rightarrow> int (length s) \<le> m"
  shows "safe_slug U s is_valid_default max_length = Inr s"
  using assms by (simp add: safe_slug_def)

text \<open>
  An instance: \<open>my-app\<close> with \<open>max_length = 6\<close>.
\<close>
theorem safe_slug_identity_witness:
  "is_valid_default (of_ascii ''my-app'') \<and>
   \<not> sublist (of_ascii ''--'') (of_ascii ''my-app'') \<and>
   int (length (of_ascii ''my-app'')) \<le> 6 \<and>
   safe_slug ascii_lowering (of_ascii ''my-app'') is_valid_default (Some 6)
     = Inr (of_ascii ''my-app'')"
proof -
  have h1: "is_valid_default (of_ascii ''my-app'')" by code_simp
  have h2: "\<not> sublist (of_ascii ''--'') (of_ascii ''my-app'')" by code_simp
  have h3: "case Some 6 of None \<Rightarrow> True | Some m \<Rightarrow> int (length (of_ascii ''my-app'')) \<le> m"
    by (simp add: of_ascii_def)
  from safe_slug_identity [OF h1 h2 h3, of ascii_lowering] h1 h2 h3 show ?thesis by simp
qed

subsection \<open>Length of a hashed slug\<close>

text \<open>
  A string that holds a surrogate code point cannot be encoded as UTF-8: on the one-character
  string U+D800, \<open>strip_and_hash\<close> with \<open>M = 12\<close> raises \<open>UnicodeEncodeError\<close> when it
  computes the hash.
\<close>
theorem strip_and_hash_surrogate_counterexample:
  "strip_and_hash ascii_lowering [0xD800] 12 = Inl UnicodeEncodeError"
  by (simp add: strip_and_hash_unfold utf8_char_def)

text \<open>
  C6. For every UTF-8-encodable string \<open>s\<close> and every \<open>M \<ge> 12\<close>, \<open>strip_and_hash(s, M)\<close>
  does not raise, and its result has at most \<open>M\<close> characters.
\<close>
theorem strip_and_hash_length:
  assumes "utf8_encodable s" and "12 \<le> M"
  shows "\<exists>r. strip_and_hash U s M = Inr r \<and> int (length r) \<le> M"
  using assms by (rule strip_and_hash_returns_bounded)

text \<open>
  An instance: the name \<open>a\<close> with \<open>M = 16\<close>.
\<close>
theorem strip_and_hash_length_witness:
  "utf8_encodable (of_ascii ''a'') \<and> (12::int) \<le> 16 \<and>
   (\<exists>r. strip_and_hash ascii_lowering (of_ascii ''a'') 16 = Inr r \<and> int (length r) \<le> 16)"
proof -
  have h2: "(12::int) \<le> 16" by simp
  from strip_and_hash_length [OF encodable_a h2, of ascii_lowering] encodable_a h2
  show ?thesis by blast
qed

subsection \<open>The delimiter of a hashed slug\<close>

text \<open>
  C7. In every string \<open>r\<close> that \<open>strip_and_hash(s, M)\<close> returns (which needs \<open>M \<ge> 12\<close>),
  \<open>---\<close> occurs at exactly one index, the one in front of the last eight characters, and
  the only occurrences of \<open>--\<close> are the two inside that \<open>---\<close>: there is no other run
  of two or more hyphens.
\<close>
theorem strip_and_hash_delimiter:
  assumes "strip_and_hash U s M = Inr r"
  shows "occurrences (of_ascii ''---'') r = [length r - 11] \<and>
         occurrences (of_ascii ''--'') r = [length r - 11, length r - 10]"
proof -
  note d = strip_and_hash_InrD [OF assms]
  from d(1) have n: "1 \<le> M - 11" by simp
  from d(3) obtain b where r: "r = extract_safe_name U s (M - 11) @ [45, 45, 45]
                  @ take hash_length (sha256_hexdigest b)" by blast
  have len: "length r = length (extract_safe_name U s (M - 11)) + 11"
    using hashed_slug_props(6) [OF n, of U s b] by (simp only: r)
  from hashed_slug_occurrences [OF n, of U s b] len show ?thesis
    by (simp add: r of_ascii_dd of_ascii_ddd)
qed

text \<open>
  An instance: the name \<open>a\<close> with \<open>M = 16\<close>.
\<close>
theorem strip_and_hash_delimiter_witness:
  "strip_and_hash ascii_lowering (of_ascii ''a'') 16
     = Inr (of_ascii ''a---'' @ take 8 (sha256_hexdigest [97])) \<and>
   occurrences (of_ascii ''---'') (of_ascii ''a---'' @ take 8 (sha256_hexdigest [97])) = [1] \<and>
   occurrences (of_ascii ''--'') (of_ascii ''a---'' @ take 8 (sha256_hexdigest [97])) = [1, 2]"
proof -
  have h: "strip_and_hash ascii_lowering (of_ascii ''a'') 16
     = Inr (of_ascii ''a---'' @ take 8 (sha256_hexdigest [97]))"
    by (simp add: strip_and_hash_unfold encode_a extract_a hash_length_def)
       (simp add: of_ascii_def)
  have l: "length (of_ascii ''a---'' @ take 8 (sha256_hexdigest [97])) = 12"
    by (simp add: of_ascii_def length_sha256_hexdigest)
  from strip_and_hash_delimiter [OF h] h l show ?thesis by simp
qed

subsection \<open>When the slug functions raise\<close>

text \<open>
  The content of a name can make both functions raise: a surrogate code point cannot be
  encoded, whatever the maximum length is. In \<open>multi_slug\<close> the names are hashed before the
  length budget is checked, so the encoding error also wins over the budget error.
\<close>
theorem raise_on_surrogate_counterexample:
  "strip_and_hash ascii_lowering [0xDFFF] 32 = Inl UnicodeEncodeError \<and>
   multi_slug ascii_lowering [of_ascii ''a'', [0xDC00]] 48 = Inl UnicodeEncodeError \<and>
   multi_slug ascii_lowering [[0xDC00]] 10 = Inl UnicodeEncodeError"
  by (simp add: strip_and_hash_unfold multi_slug_unfold encode_a utf8_char_def)

text \<open>
  C8. \<open>strip_and_hash(s, M)\<close> raises the \<open>ValueError\<close> of an impossible length budget iff
  \<open>M < 12\<close>, for every string \<open>s\<close>; on a non-empty list \<open>ns\<close> of UTF-8-encodable strings,
  \<open>multi_slug(ns, M)\<close> raises it iff \<open>(M - 9) // len(ns) - 2 < 2\<close>; and on UTF-8-encodable
  input neither function raises anything else.
\<close>
theorem config_error_iff:
  "(strip_and_hash U s M = Inl ValueError \<longleftrightarrow> M < 12) \<and>
   (utf8_encodable s \<longrightarrow> (\<exists>r. strip_and_hash U s M = Inr r) \<or> strip_and_hash U s M = Inl ValueError) \<and>
   (ns \<noteq> [] \<and> list_all utf8_encodable ns \<longrightarrow>
      (multi_slug U ns M = Inl ValueError \<longleftrightarrow> (M - 9) div int (length ns) - 2 < 2) \<and>
      ((\<exists>r. multi_slug U ns M = Inr r) \<or> multi_slug U ns M = Inl ValueError))"
proof (intro conjI impI)
  show "strip_and_hash U s M = Inl ValueError \<longleftrightarrow> M < 12"
    using utf8_encode_Inl [of s] by (auto simp: strip_and_hash_unfold split: sum.splits)
  show "(\<exists>r. strip_and_hash U s M = Inr r) \<or> strip_and_hash U s M = Inl ValueError"
    if "utf8_encodable s"
    using that strip_and_hash_returns [of M s U] by (cases "12 \<le> M") (auto simp: strip_and_hash_unfold)
  show "multi_slug U ns M = Inl ValueError \<longleftrightarrow> (M - 9) div int (length ns) - 2 < 2"
    if "ns \<noteq> [] \<and> list_all utf8_encodable ns"
    using that multi_slug_encodable [of ns U M] by auto
  show "(\<exists>r. multi_slug U ns M = Inr r) \<or> multi_slug U ns M = Inl ValueError"
    if "ns \<noteq> [] \<and> list_all utf8_encodable ns"
    using that multi_slug_encodable [of ns U M] by auto
qed

text \<open>
  An instance: the name \<open>a\<close> at \<open>M = 11\<close> and \<open>M = 12\<close>, the components \<open>a\<close>, \<open>b\<close> at
  \<open>M = 16\<close> and \<open>M = 17\<close>.
\<close>
theorem config_error_iff_witness:
  "utf8_encodable (of_ascii ''a'') \<and>
   [of_ascii ''a'', of_ascii ''b''] \<noteq> [] \<and>
   list_all utf8_encodable [of_ascii ''a'', of_ascii ''b''] \<and>
   strip_and_hash ascii_lowering (of_ascii ''a'') 11 = Inl ValueError \<and>
   (\<exists>r. strip_and_hash ascii_lowering (of_ascii ''a'') 12 = Inr r) \<and>
   multi_slug ascii_lowering [of_ascii ''a'', of_ascii ''b''] 16 = Inl ValueError \<and>
   (\<exists>r. multi_slug ascii_lowering [of_ascii ''a'', of_ascii ''b''] 17 = Inr r)"
proof -
  have h1: "utf8_encodable (of_ascii ''a'')" by (rule encodable_a)
  have h2: "[of_ascii ''a'', of_ascii ''b''] \<noteq> [] \<and>
            list_all utf8_encodable [of_ascii ''a'', of_ascii ''b'']"
    by (simp add: utf8_encodable_def encodable_char_def of_ascii_def)
  note t11 = config_error_iff [of ascii_lowering "of_ascii ''a''" 11 "[of_ascii ''a'', of_ascii ''b'']"]
  note t12 = config_error_iff [of ascii_lowering "of_ascii ''a''" 12 "[of_ascii ''a'', of_ascii ''b'']"]
  note t16 = config_error_iff [of ascii_lowering "of_ascii ''a''" 16 "[of_ascii ''a'', of_ascii ''b'']"]
  note t17 = config_error_iff [of ascii_lowering "of_ascii ''a''" 17 "[of_ascii ''a'', of_ascii ''b'']"]
  have a: "strip_and_hash ascii_lowering (of_ascii ''a'') 11 = Inl ValueError"
    using t11 by simp
  have b: "\<exists>r. strip_and_hash ascii_lowering (of_ascii ''a'') 12 = Inr r"
    using t12 h1 by auto
  have c: "multi_slug ascii_lowering [of_ascii ''a'', of_ascii ''b''] 16 = Inl ValueError"
    using t16 h2 by simp
  have d: "\<exists>r. multi_slug ascii_lowering [of_ascii ''a'', of_ascii ''b''] 17 = Inr r"
    using t17 h2 by auto
  from h1 h2 a b c d show ?thesis by blast
qed

subsection \<open>The safe-name extractor\<close>

text \<open>
  C9. For every string \<open>s\<close> and every maximum length \<open>n \<ge> 1\<close>, \<open>_extract_safe_name(s, n)\<close>
  is not empty, has at most \<open>n\<close> characters, all of them lower-case letters, digits or
  hyphens, neither starts nor ends with a hyphen and contains no \<open>--\<close>; and
  \<open>_extract_safe_name("My--User_Name!!", 10)\<close> is \<open>"my-usernam"\<close>.
\<close>
theorem extract_safe_name_safe:
  "(1 \<le> n \<longrightarrow>
      extract_safe_name U s n \<noteq> [] \<and>
      int (length (extract_safe_name U s n)) \<le> n \<and>
      list_all slug_class (extract_safe_name U s n) \<and>
      hd (extract_safe_name U s n) \<noteq> 45 \<and>
      last (extract_safe_name U s n) \<noteq> 45 \<and>
      \<not> sublist (of_ascii ''--'') (extract_safe_name U s n)) \<and>
   extract_safe_name U (of_ascii ''My--User_Name!!'') 10 = of_ascii ''my-usernam''"
proof (intro conjI impI)
  assume n: "1 \<le> n"
  note p = extract_safe_name_props [OF n, of U s]
  show "extract_safe_name U s n \<noteq> []" by (rule p(1))
  show "int (length (extract_safe_name U s n)) \<le> n" by (rule p(2))
  show "list_all slug_class (extract_safe_name U s n)" by (rule p(3))
  show "hd (extract_safe_name U s n) \<noteq> 45" by (rule p(4))
  show "last (extract_safe_name U s n) \<noteq> 45" by (rule p(5))
  show "\<not> sublist (of_ascii ''--'') (extract_safe_name U s n)"
    using p(6) by (simp add: of_ascii_dd)
next
  show "extract_safe_name U (of_ascii ''My--User_Name!!'') 10 = of_ascii ''my-usernam''"
    by (simp add: extract_safe_name_def str_lower_def ascii_lower_def of_ascii_def
        in_lower_plus_hyphen slug_class_def in_range_def lstrip_def rstrip_def slice_to_def)
qed

text \<open>
  An instance: \<open>-A--b-c\<close> cut to three characters.
\<close>
theorem extract_safe_name_safe_witness:
  "(1::int) \<le> 3 \<and>
   extract_safe_name ascii_lowering (of_ascii ''-A--b-c'') 3 = of_ascii ''a-b'' \<and>
   of_ascii ''a-b'' \<noteq> [] \<and> int (length (of_ascii ''a-b'')) \<le> 3 \<and>
   list_all slug_class (of_ascii ''a-b'') \<and> hd (of_ascii ''a-b'') \<noteq> 45 \<and>
   last (of_ascii ''a-b'') \<noteq> 45 \<and> \<not> sublist (of_ascii ''--'') (of_ascii ''a-b'')"
proof -
  have e: "extract_safe_name ascii_lowering (of_ascii ''-A--b-c'') 3 = of_ascii ''a-b''"
    by code_simp
  from extract_safe_name_safe [of 3 ascii_lowering "of_ascii ''-A--b-c''"] e
  show ?thesis by simp
qed

subsection \<open>A maximum length of zero\<close>

text \<open>
  With a surrogate in the name the call raises: the hasher it is routed to cannot encode
  the name.
\<close>
theorem safe_slug_zero_surrogate_counterexample:
  "[0xD800] \<noteq> ([] :: str) \<and>
   safe_slug ascii_lowering [0xD800] is_valid_label (Some 0) = Inl UnicodeEncodeError"
  by (simp add: safe_slug_def or_32_def strip_and_hash_unfold utf8_char_def of_ascii_def
      sublist_Cons_right)

text \<open>
  C10. For every non-empty string \<open>name\<close> and every validity predicate, \<open>safe_slug\<close> with
  \<open>max_length = 0\<close> behaves as \<open>strip_and_hash(name, 32)\<close>: the zero is falsy and is
  replaced by 32. If \<open>name\<close> is UTF-8-encodable the call does not raise and returns a
  string of at most 32 characters.
\<close>
theorem safe_slug_zero_max_length:
  assumes "s \<noteq> []"
  shows "safe_slug U s R (Some 0) = strip_and_hash U s 32 \<and>
         (utf8_encodable s \<longrightarrow>
            (\<exists>r. safe_slug U s R (Some 0) = Inr r \<and> length r \<le> 32))"
proof -
  have eq: "safe_slug U s R (Some 0) = strip_and_hash U s 32"
    using assms by (simp add: safe_slug_def or_32_def)
  moreover have "\<exists>r. strip_and_hash U s 32 = Inr r \<and> length r \<le> 32" if "utf8_encodable s"
    using strip_and_hash_returns_bounded [OF that, of 32 U] by auto
  ultimately show ?thesis by simp
qed

text \<open>
  An instance: the name \<open>a\<close> under the default rule.
\<close>
theorem safe_slug_zero_max_length_witness:
  "of_ascii ''a'' \<noteq> [] \<and> utf8_encodable (of_ascii ''a'') \<and>
   safe_slug ascii_lowering (of_ascii ''a'') is_valid_default (Some 0)
     = strip_and_hash ascii_lowering (of_ascii ''a'') 32 \<and>
   (\<exists>r. safe_slug ascii_lowering (of_ascii ''a'') is_valid_default (Some 0) = Inr r \<and>
        length r \<le> 32)"
proof -
  have h1: "of_ascii ''a'' \<noteq> []" by (simp add: of_ascii_def)
  from safe_slug_zero_max_length [OF h1, of ascii_lowering is_valid_default] h1 encodable_a
  show ?thesis by blast
qed

end
